theory Spec2Isabelle
  imports Main "HOL-Library.Word"
begin

section \<open>Data model of main.go\<close>

text \<open>
  Go strings are byte sequences: \<open>string\<close> (a list of 8-bit \<open>char\<close>) models them.
  Go's \<open>int\<close> is taken to be 64 bits wide (the program seeks in a multi-gigabyte dump);
  its values are modelled as \<open>int\<close>, with the range check of \<open>strconv.Atoi\<close> and the
  wrap-around of \<open>++\<close> written out. \<open>uint64\<close> hashes are \<open>64 word\<close>.
\<close>

datatype error =
    IOError string \<comment> \<open>failure of bleve.New, os.Open, pbzip2.NewReader, Scanner.Err, File.Seek\<close>
  | EOF \<comment> \<open>io.EOF from xml.Decoder.Decode at the end of the stream\<close>
  | DecodeError string \<comment> \<open>any other failure of xml.Decoder.Decode\<close>
  | PartsError "string list" \<comment> \<open>"expected at least 3 parts, got: %#v"\<close>
  | NumError string \<comment> \<open>*strconv.NumError of strconv.Atoi, carrying the input\<close>
  | TriesError int \<comment> \<open>"failed to find page after %d tries"\<close>
  | StatusError int string \<comment> \<open>statusErrorf(code, "article not found: %q", name)\<close>
  | NoArticles \<comment> \<open>"no articles"\<close>

record indexEntry =
  id' :: int
  seek :: int

definition zeroEntry :: indexEntry where
  "zeroEntry = \<lparr>id' = 0, seek = 0\<rparr>"

text \<open>
  The global \<open>mu\<close>: the two maps guarded by the mutex. The mutex itself is not modelled
  (every operation below runs as one atomic step).
\<close>

record mu_state =
  offsets :: "64 word \<rightharpoonup> indexEntry"
  offsetSize :: "int \<rightharpoonup> int"

definition mu_init :: mu_state where
  "mu_init = \<lparr>offsets = Map.empty, offsetSize = Map.empty\<rparr>"

record redirect =
  RedirectTitle :: string

record page =
  XMLName :: "string \<times> string"
  Title :: string
  NS :: int
  ID :: int
  Redirect :: "redirect list"
  RevisionID :: string
  Timestamp :: string
  Username :: string
  UserID :: string
  Model :: string
  Format :: string
  Text :: string

definition zeroPage :: page where
  "zeroPage = \<lparr>XMLName = ([], []), Title = [], NS = 0, ID = 0, Redirect = [],
     RevisionID = [], Timestamp = [], Username = [], UserID = [],
     Model = [], Format = [], Text = []\<rparr>"

section \<open>Library functions used by main.go\<close>

text \<open>\<open>strings.Split(s, ":")\<close> for a one-byte separator: one part more than separators.\<close>

fun strings_Split :: "char \<Rightarrow> string \<Rightarrow> string list" where
  "strings_Split sep [] = [[]]"
| "strings_Split sep (c # cs) =
     (if c = sep then [] # strings_Split sep cs
      else (case strings_Split sep cs of
              [] \<Rightarrow> [[c]]
            | p # ps \<Rightarrow> (c # p) # ps))"

text \<open>\<open>strings.Join(parts, ":")\<close> for a one-byte separator.\<close>

fun strings_Join :: "char \<Rightarrow> string list \<Rightarrow> string" where
  "strings_Join sep [] = []"
| "strings_Join sep [p] = p"
| "strings_Join sep (p # q # ps) = p @ sep # strings_Join sep (q # ps)"

definition isDigit :: "char \<Rightarrow> bool" where
  "isDigit c = (48 \<le> (of_char c :: nat) \<and> (of_char c :: nat) \<le> 57)"

definition digitsVal :: "string \<Rightarrow> nat" where
  "digitsVal ds = foldl (\<lambda>n c. 10 * n + ((of_char c :: nat) - 48)) 0 ds"

text \<open>
  \<open>strconv.Atoi\<close> on a 64-bit platform: an optional sign, then at least one decimal digit
  and nothing else; the value must fit a signed 64-bit integer. Go tells syntax errors from
  range errors inside the \<open>NumError\<close>; the model keeps the input only.
\<close>

definition Atoi :: "string \<Rightarrow> error + int" where
  "Atoi s =
     (let neg = (s \<noteq> [] \<and> hd s = CHR ''-'');
          ds = (if s \<noteq> [] \<and> (hd s = CHR ''-'' \<or> hd s = CHR ''+'') then tl s else s)
      in if ds = [] \<or> \<not> list_all isDigit ds then Inl (NumError s)
         else if neg then
           (if digitsVal ds > 2 ^ 63 then Inl (NumError s) else Inr (- int (digitsVal ds)))
         else
           (if digitsVal ds \<ge> 2 ^ 63 then Inl (NumError s) else Inr (int (digitsVal ds))))"

text \<open>Signed 64-bit wrap-around of Go's \<open>int\<close> arithmetic.\<close>

definition wrap64 :: "int \<Rightarrow> int" where
  "wrap64 x = (x + 2 ^ 63) mod 2 ^ 64 - 2 ^ 63"

text \<open>Reading a Go map of ints: a missing key reads as 0 and is not inserted.\<close>

definition offsetSizeAt :: "mu_state \<Rightarrow> int \<Rightarrow> int" where
  "offsetSizeAt mu k = (case offsetSize mu k of None \<Rightarrow> 0 | Some n \<Rightarrow> n)"

section \<open>loadIndex\<close>

text \<open>
  What \<open>loadIndex\<close> reads: the outcome of \<open>bleve.New\<close>, of \<open>os.Open(*indexFile)\<close> and of
  \<open>pbzip2.NewReader\<close>, the lines that \<open>scanner.Scan\<close> delivers in order, and the value of
  \<open>scanner.Err()\<close> once \<open>Scan\<close> has returned false. The bleve index that
  \<open>loadIndex\<close> creates is never written to or read again and is left out, as are the
  log lines.
\<close>

record indexSource =
  bleveNew :: "error option"
  openIndex :: "error option"
  newReader :: "error option"
  scanLines :: "string list"
  scanErr :: "error option"

text \<open>Lines 72 to 88 of the loop body: split, check, parse, rejoin.\<close>

definition parseLine :: "string \<Rightarrow> error + (indexEntry \<times> string)" where
  "parseLine line =
     (let parts = strings_Split CHR '':'' line
      in if length parts < 3 then Inl (PartsError parts)
         else (case Atoi (parts ! 0) of
                 Inl e \<Rightarrow> Inl e
               | Inr sk \<Rightarrow>
                   (case Atoi (parts ! 1) of
                      Inl e \<Rightarrow> Inl e
                    | Inr i \<Rightarrow>
                        Inr (\<lparr>id' = i, seek = sk\<rparr>, strings_Join CHR '':'' (drop 2 parts)))))"

text \<open>Lines 91 to 94: the two writes made under the lock.\<close>

definition insertEntry :: "64 word \<Rightarrow> indexEntry \<Rightarrow> mu_state \<Rightarrow> mu_state" where
  "insertEntry titleHash entry mu =
     mu\<lparr>offsets := (offsets mu)(titleHash \<mapsto> entry),
        offsetSize := (offsetSize mu)(seek entry \<mapsto> wrap64 (offsetSizeAt mu (seek entry) + 1))\<rparr>"

text \<open>
  The \<open>for scanner.Scan()\<close> loop. \<open>hash\<close> stands for \<open>cityhash.Hash64\<close>. The progress
  counter \<open>i\<close> only feeds the log and is left out.
\<close>

fun scanLoop :: "(string \<Rightarrow> 64 word) \<Rightarrow> string list \<Rightarrow> mu_state \<Rightarrow> error option \<times> mu_state" where
  "scanLoop hash [] mu = (None, mu)"
| "scanLoop hash (line # rest) mu =
     (case parseLine line of
        Inl e \<Rightarrow> (Some e, mu)
      | Inr (entry, title) \<Rightarrow> scanLoop hash rest (insertEntry (hash title) entry mu))"

definition loadIndex :: "(string \<Rightarrow> 64 word) \<Rightarrow> indexSource \<Rightarrow> mu_state \<Rightarrow> error option \<times> mu_state" where
  "loadIndex hash src mu =
     (case bleveNew src of
        Some e \<Rightarrow> (Some e, mu)
      | None \<Rightarrow>
     (case openIndex src of
        Some e \<Rightarrow> (Some e, mu)
      | None \<Rightarrow>
     (case newReader src of
        Some e \<Rightarrow> (Some e, mu)
      | None \<Rightarrow>
     (case scanLoop hash (scanLines src) mu of
        (Some e, mu') \<Rightarrow> (Some e, mu')
      | (None, mu') \<Rightarrow>
     (case scanErr src of
        Some e \<Rightarrow> (Some e, mu')
      | None \<Rightarrow> (None, mu'))))))"

section \<open>readArticle\<close>

text \<open>
  An \<open>xml.Decoder\<close> positioned in the archive is the list of the outcomes its next calls of
  \<open>Decode(&p)\<close> will have. \<open>Decode\<close> writes into the \<open>page\<close> it is given, so each outcome
  depends on the value \<open>p\<close> holds before the call. Past the last element \<open>Decode\<close> returns
  \<open>io.EOF\<close>.
\<close>

type_synonym decoder = "(page \<Rightarrow> error + page) list"

fun Decode :: "decoder \<Rightarrow> page \<Rightarrow> (error + page) \<times> decoder" where
  "Decode [] p = (Inl EOF, [])"
| "Decode (f # d) p = (f p, d)"

text \<open>
  The archive file: the outcome of \<open>os.Open(*articlesFile)\<close>, and for each offset the
  outcome of \<open>f.Seek(offset, 0)\<close> together with the decoder that reads from there.
\<close>

record archive =
  openArticles :: "error option"
  seekArticles :: "int \<Rightarrow> error + decoder"

text \<open>
  The loop of lines 151 to 158 and the return of line 160. The decoder that is left is
  returned beside the result, so that the number of \<open>Decode\<close> calls can be read off.
\<close>

function decodeLoop :: "decoder \<Rightarrow> page \<Rightarrow> int \<Rightarrow> int \<Rightarrow> indexEntry \<Rightarrow> (error + page) \<times> decoder" where
  "decodeLoop d p i maxTries meta =
     (if i < maxTries then
        (case Decode d p of
           (Inl e, d') \<Rightarrow> (Inl e, d')
         | (Inr p', d') \<Rightarrow>
             if ID p' = id' meta then (Inr p', d')
             else decodeLoop d' p' (i + 1) maxTries meta)
      else (Inl (TriesError maxTries), d))"
  by pat_completeness auto
termination
  by (relation "measure (\<lambda>(d, p, i, maxTries, meta). nat (maxTries - i))") auto

definition readArticle :: "archive \<Rightarrow> indexEntry \<Rightarrow> mu_state \<Rightarrow> (error + page) \<times> mu_state" where
  "readArticle arch meta mu =
     (case openArticles arch of
        Some e \<Rightarrow> (Inl e, mu)
      | None \<Rightarrow>
          (let maxTries = offsetSizeAt mu (seek meta)
           in case seekArticles arch (seek meta) of
                Inl e \<Rightarrow> (Inl e, mu)
              | Inr d \<Rightarrow> (fst (decodeLoop d zeroPage 0 maxTries meta), mu)))"

section \<open>fetchArticle, randomArticleHash, randomArticle\<close>

definition statusErrorf :: "int \<Rightarrow> string \<Rightarrow> error" where
  "statusErrorf code name = StatusError code name"

text \<open>
  \<open>hash\<close> stands for \<open>cityhash.Hash64\<close>, \<open>toLower\<close> for \<open>strings.ToLower\<close> and \<open>toTitle\<close>
  for \<open>strings.Title\<close>. 404 is \<open>http.StatusNotFound\<close>.
\<close>

definition fetchArticle ::
  "(string \<Rightarrow> 64 word) \<Rightarrow> (string \<Rightarrow> string) \<Rightarrow> (string \<Rightarrow> string) \<Rightarrow> string \<Rightarrow> mu_state
     \<Rightarrow> (error + indexEntry) \<times> mu_state" where
  "fetchArticle hash toLower toTitle name mu =
     (case offsets mu (hash name) of
        Some articleMeta \<Rightarrow> (Inr articleMeta, mu)
      | None \<Rightarrow>
          (case offsets mu (hash (toTitle (toLower name))) of
             Some articleMeta \<Rightarrow> (Inr articleMeta, mu)
           | None \<Rightarrow> (Inl (statusErrorf 404 name), mu)))"

text \<open>
  Go leaves the order of \<open>range\<close> over a map open: the first key can be any key. The
  relation \<open>randomArticleHash mu r mu'\<close> holds of every result \<open>r\<close> and index \<open>mu'\<close>
  the function can return and leave when called on \<open>mu\<close>.
\<close>

inductive randomArticleHash :: "mu_state \<Rightarrow> (error + 64 word) \<Rightarrow> mu_state \<Rightarrow> bool" where
  first_key: "offsets mu h = Some e \<Longrightarrow> randomArticleHash mu (Inr h) mu"
| no_key: "offsets mu = Map.empty \<Longrightarrow> randomArticleHash mu (Inl NoArticles) mu"

code_pred randomArticleHash .

text \<open>Line 195: reading \<open>mu.offsets[hash]\<close> gives the zero entry for a missing key.\<close>

definition offsetsAt :: "mu_state \<Rightarrow> 64 word \<Rightarrow> indexEntry" where
  "offsetsAt mu h = (case offsets mu h of None \<Rightarrow> zeroEntry | Some e \<Rightarrow> e)"

inductive randomArticle :: "archive \<Rightarrow> mu_state \<Rightarrow> (error + page) \<Rightarrow> mu_state \<Rightarrow> bool" where
  hash_err: "randomArticleHash mu (Inl err) mu' \<Longrightarrow> randomArticle arch mu (Inl err) mu'"
| hash_ok: "randomArticleHash mu (Inr h) mu' \<Longrightarrow>
     readArticle arch (offsetsAt mu' h) mu' = (r, mu'') \<Longrightarrow> randomArticle arch mu r mu''"

code_pred randomArticle .

section \<open>Notions used to state the properties\<close>

text \<open>The line \<open>off:i:title\<close> of the index file.\<close>

definition indexLine :: "string \<Rightarrow> string \<Rightarrow> string \<Rightarrow> string" where
  "indexLine off i title = off @ CHR '':'' # i @ CHR '':'' # title"

text \<open>
  A malformed line, in the words of the specification: fewer than three parts between
  colons, or an offset or id field that \<open>strconv.Atoi\<close> does not accept.
\<close>

definition malformed :: "string \<Rightarrow> bool" where
  "malformed line =
     (let parts = strings_Split CHR '':'' line
      in if length parts < 3 then True
         else isl (Atoi (parts ! 0)) \<or> isl (Atoi (parts ! 1)))"

definition lineTitle :: "string \<Rightarrow> string" where
  "lineTitle line = (case parseLine line of Inl e \<Rightarrow> [] | Inr (entry, title) \<Rightarrow> title)"

definition lineEntry :: "string \<Rightarrow> indexEntry" where
  "lineEntry line = (case parseLine line of Inl e \<Rightarrow> zeroEntry | Inr (entry, title) \<Rightarrow> entry)"

text \<open>The entry of the last line of \<open>ls\<close> whose title hashes to \<open>h\<close>.\<close>

fun lastEntry :: "(string \<Rightarrow> 64 word) \<Rightarrow> string list \<Rightarrow> 64 word \<Rightarrow> indexEntry option" where
  "lastEntry hash [] h = None"
| "lastEntry hash (line # rest) h =
     (case lastEntry hash rest h of
        Some e \<Rightarrow> Some e
      | None \<Rightarrow> if hash (lineTitle line) = h \<and> \<not> malformed line then Some (lineEntry line) else None)"

text \<open>The number of lines of \<open>ls\<close> whose offset field is \<open>off\<close>.\<close>

definition recordsAt :: "string list \<Rightarrow> int \<Rightarrow> nat" where
  "recordsAt ls off = length (filter (\<lambda>l. \<not> malformed l \<and> seek (lineEntry l) = off) ls)"

text \<open>The number of entries of \<open>mu.offsets\<close> whose seek field is \<open>off\<close>.\<close>

definition entriesAt :: "mu_state \<Rightarrow> int \<Rightarrow> nat" where
  "entriesAt mu off = card {h. \<exists>e. offsets mu h = Some e \<and> seek e = off}"

text \<open>
  \<open>skips fs p meta\<close>: every decode of \<open>fs\<close>, started on \<open>p\<close>, succeeds with an id other than
  the one looked for; the value is the page the last of them leaves.
\<close>

fun skips :: "decoder \<Rightarrow> page \<Rightarrow> indexEntry \<Rightarrow> page option" where
  "skips [] p meta = Some p"
| "skips (f # fs) p meta =
     (case f p of
        Inl e \<Rightarrow> None
      | Inr p' \<Rightarrow> if ID p' = id' meta then None else skips fs p' meta)"

section \<open>Concrete library functions for the examples\<close>

text \<open>
  The theorems hold for every hash function and every pair of case mappings. The examples
  run them on a polynomial hash and on \<open>strings.ToLower\<close> and \<open>strings.Title\<close> as they act
  on ASCII text (for \<open>strings.Title\<close>: a letter is capitalised when the byte before it is
  neither a letter, a digit nor an underscore).
\<close>

definition exampleHash :: "string \<Rightarrow> 64 word" where
  "exampleHash s = foldl (\<lambda>h c. 31 * h + of_char c) 7 s"

definition upperLetters :: string where
  "upperLetters = ''ABCDEFGHIJKLMNOPQRSTUVWXYZ''"

definition lowerLetters :: string where
  "lowerLetters = ''abcdefghijklmnopqrstuvwxyz''"

definition asciiToLower :: "string \<Rightarrow> string" where
  "asciiToLower s =
     map (\<lambda>c. case map_of (zip upperLetters lowerLetters) c of None \<Rightarrow> c | Some d \<Rightarrow> d) s"

definition isSeparator :: "char \<Rightarrow> bool" where
  "isSeparator c =
     (c \<notin> set (upperLetters @ lowerLetters @ ''0123456789_'') \<and> (of_char c :: nat) < 128)"

fun titleFrom :: "char \<Rightarrow> string \<Rightarrow> string" where
  "titleFrom prev [] = []"
| "titleFrom prev (c # cs) =
     (if isSeparator prev
      then (case map_of (zip lowerLetters upperLetters) c of None \<Rightarrow> c | Some d \<Rightarrow> d)
      else c) # titleFrom c cs"

definition asciiTitle :: "string \<Rightarrow> string" where
  "asciiTitle s = titleFrom CHR '' '' s"

definition okSource :: "string list \<Rightarrow> indexSource" where
  "okSource ls = \<lparr>bleveNew = None, openIndex = None, newReader = None,
                  scanLines = ls, scanErr = None\<rparr>"

text \<open>
  The scenario of the specification: two records that share offset 1024, and an archive
  whose block at 1024 holds the two pages in that order.
\<close>

definition exampleLines :: "string list" where
  "exampleLines = [''1024:42:Test Article'', ''1024:43:Other Page'']"

definition exampleIndex :: mu_state where
  "exampleIndex = snd (loadIndex exampleHash (okSource exampleLines) mu_init)"

definition examplePages :: decoder where
  "examplePages =
     [\<lambda>p. Inr (p\<lparr>Title := ''Test Article'', ID := 42\<rparr>),
      \<lambda>p. Inr (p\<lparr>Title := ''Other Page'', ID := 43\<rparr>)]"

definition exampleArchive :: archive where
  "exampleArchive =
     \<lparr>openArticles = None,
      seekArticles = (\<lambda>off. if off = 1024 then Inr examplePages else Inr [])\<rparr>"

section \<open>Facts about the library functions\<close>

lemma Split_not_Nil: "strings_Split sep s \<noteq> []"
  by (induction s) (auto split: list.splits)

lemma Split_append_sep:
  "sep \<notin> set a \<Longrightarrow> strings_Split sep (a @ sep # rest) = a # strings_Split sep rest"
  by (induction a) (auto split: list.splits)

lemma Join_Cons: "ps \<noteq> [] \<Longrightarrow> strings_Join sep (p # ps) = p @ sep # strings_Join sep ps"
  by (cases ps) auto

lemma Join_Split: "strings_Join sep (strings_Split sep s) = s"
proof (induction s)
  case Nil
  then show ?case by simp
next
  case (Cons c cs)
  show ?case
  proof (cases "c = sep")
    case True
    then show ?thesis using Cons by (simp add: Join_Cons Split_not_Nil)
  next
    case False
    obtain p ps where sp: "strings_Split sep cs = p # ps"
      using Split_not_Nil [of sep cs] by (cases "strings_Split sep cs") auto
    have "strings_Join sep ((c # p) # ps) = c # strings_Join sep (p # ps)"
      by (cases ps) auto
    then show ?thesis using False Cons sp by simp
  qed
qed

lemma isDigit_colon: "\<not> isDigit CHR '':''"
  by (simp add: isDigit_def)

lemma Atoi_digits:
  "Atoi a = Inr n \<Longrightarrow>
     \<exists>ds. list_all isDigit ds \<and> (a = ds \<or> a = CHR ''-'' # ds \<or> a = CHR ''+'' # ds)"
  unfolding Atoi_def Let_def
  apply (cases a)
   apply (simp_all split: if_splits)
   apply blast+
  done

lemma Atoi_no_colon: "Atoi a = Inr n \<Longrightarrow> CHR '':'' \<notin> set a"
  using Atoi_digits [of a n] isDigit_colon by (auto simp: list_all_iff)

lemma Split_indexLine:
  assumes "CHR '':'' \<notin> set off" and "CHR '':'' \<notin> set i"
  shows "strings_Split CHR '':'' (indexLine off i title) = off # i # strings_Split CHR '':'' title"
  using assms by (simp add: indexLine_def Split_append_sep)

lemma parseLine_indexLine:
  assumes "Atoi off = Inr sk" and "Atoi i = Inr n"
  shows "parseLine (indexLine off i title) = Inr (\<lparr>id' = n, seek = sk\<rparr>, title)"
proof -
  have sp: "strings_Split CHR '':'' (indexLine off i title)
              = off # i # strings_Split CHR '':'' title"
    using assms by (intro Split_indexLine Atoi_no_colon)
  have "length (strings_Split CHR '':'' title) \<noteq> 0"
    using Split_not_Nil by simp
  then show ?thesis
    using assms by (simp add: parseLine_def sp Join_Split)
qed

lemma parseLine_cases:
  "(malformed l \<and> (\<exists>e. parseLine l = Inl e)) \<or>
   (\<not> malformed l \<and> parseLine l = Inr (lineEntry l, lineTitle l))"
  by (auto simp: malformed_def parseLine_def lineEntry_def lineTitle_def Let_def
      split: sum.splits)

lemma parseLine_ok: "\<not> malformed l \<Longrightarrow> parseLine l = Inr (lineEntry l, lineTitle l)"
  using parseLine_cases [of l] by blast

lemma parseLine_bad: "malformed l \<Longrightarrow> \<exists>e. parseLine l = Inl e"
  using parseLine_cases [of l] by blast

lemma parseLine_Inr: "parseLine l = Inr (e, t) \<Longrightarrow> \<not> malformed l \<and> lineEntry l = e \<and> lineTitle l = t"
  using parseLine_cases [of l] by auto

lemma wrap64_id: "- (2 ^ 63) \<le> x \<Longrightarrow> x < 2 ^ 63 \<Longrightarrow> wrap64 x = x"
  by (simp add: wrap64_def)

lemmas example_defs = parseLine_def Atoi_def isDigit_def digitsVal_def insertEntry_def
  offsetSizeAt_def wrap64_def loadIndex_def okSource_def mu_init_def fetchArticle_def
  statusErrorf_def exampleHash_def asciiToLower_def asciiTitle_def isSeparator_def
  upperLetters_def lowerLetters_def malformed_def exampleLines_def exampleIndex_def
  lineTitle_def lineEntry_def indexLine_def

section \<open>The scanning loop\<close>

lemma scanLoop_ok:
  "\<forall>l \<in> set ls. \<not> malformed l \<Longrightarrow> fst (scanLoop hash ls mu) = None"
  by (induction ls arbitrary: mu) (auto simp: parseLine_ok)

lemma scanLoop_None_ok:
  "scanLoop hash ls mu = (None, mu') \<Longrightarrow> \<forall>l \<in> set ls. \<not> malformed l"
proof (induction ls arbitrary: mu)
  case Nil
  then show ?case by simp
next
  case (Cons l ls)
  show ?case
  proof (cases "malformed l")
    case True
    then show ?thesis using Cons.prems parseLine_bad [of l] by auto
  next
    case False
    then show ?thesis using Cons by (auto simp: parseLine_ok)
  qed
qed

lemma scanLoop_stop:
  assumes "\<forall>l \<in> set pre. \<not> malformed l" and "parseLine bad = Inl e"
  shows "scanLoop hash (pre @ bad # post) mu = (Some e, snd (scanLoop hash pre mu))"
  using assms by (induction pre arbitrary: mu) (auto simp: parseLine_ok)

lemma scanLoop_offsets:
  "scanLoop hash ls mu = (None, mu') \<Longrightarrow>
     offsets mu' h = (case lastEntry hash ls h of Some e \<Rightarrow> Some e | None \<Rightarrow> offsets mu h)"
proof (induction ls arbitrary: mu)
  case Nil
  then show ?case by simp
next
  case (Cons l ls)
  have ok: "\<not> malformed l"
    using scanLoop_None_ok [OF Cons.prems] by simp
  have step: "scanLoop hash ls (insertEntry (hash (lineTitle l)) (lineEntry l) mu) = (None, mu')"
    using Cons.prems by (simp add: parseLine_ok [OF ok])
  show ?case
    using Cons.IH [OF step] ok
    by (simp add: insertEntry_def split: option.splits)
qed

lemma offsetSizeAt_insertEntry:
  "offsetSizeAt (insertEntry k e mu) off =
     (if seek e = off then wrap64 (offsetSizeAt mu off + 1) else offsetSizeAt mu off)"
  by (simp add: insertEntry_def offsetSizeAt_def)

lemma recordsAt_le: "recordsAt ls off \<le> length ls"
  by (simp add: recordsAt_def)

lemma scanLoop_offsetSize:
  "scanLoop hash ls mu = (None, mu') \<Longrightarrow> 0 \<le> offsetSizeAt mu off \<Longrightarrow>
   offsetSizeAt mu off + int (length ls) < 2 ^ 63 \<Longrightarrow>
     offsetSizeAt mu' off = offsetSizeAt mu off + int (recordsAt ls off)"
proof (induction ls arbitrary: mu)
  case Nil
  then show ?case by (simp add: recordsAt_def)
next
  case (Cons l ls)
  let ?mu1 = "insertEntry (hash (lineTitle l)) (lineEntry l) mu"
  have ok: "\<not> malformed l"
    using scanLoop_None_ok [OF Cons.prems(1)] by simp
  have step: "scanLoop hash ls ?mu1 = (None, mu')"
    using Cons.prems(1) by (simp add: parseLine_ok [OF ok])
  have w: "wrap64 (offsetSizeAt mu off + 1) = offsetSizeAt mu off + 1"
    using Cons.prems(2,3) by (intro wrap64_id) auto
  have one: "offsetSizeAt ?mu1 off =
      offsetSizeAt mu off + (if seek (lineEntry l) = off then 1 else 0)"
    by (simp add: offsetSizeAt_insertEntry w)
  have "offsetSizeAt mu' off = offsetSizeAt ?mu1 off + int (recordsAt ls off)"
    using Cons.prems(2,3) one by (intro Cons.IH [OF step]) auto
  then show ?case
    using one ok by (simp add: recordsAt_def)
qed

lemma scanLoop_single:
  "scanLoop hash [l] mu = (r, mu') \<Longrightarrow>
     mu' = mu \<or> mu' = insertEntry (hash (lineTitle l)) (lineEntry l) mu"
  using parseLine_cases [of l] by auto

lemma loadIndex_None:
  "loadIndex hash src mu0 = (None, mu) \<Longrightarrow> scanLoop hash (scanLines src) mu0 = (None, mu)"
  by (auto simp: loadIndex_def split: option.splits prod.splits)

lemma loadIndex_ok:
  "bleveNew src = None \<Longrightarrow> openIndex src = None \<Longrightarrow> newReader src = None \<Longrightarrow>
   scanLoop hash (scanLines src) mu0 = (None, mu) \<Longrightarrow>
     loadIndex hash src mu0 = (scanErr src, mu)"
  by (auto simp: loadIndex_def split: option.splits prod.splits)

lemma lastEntry_append:
  "lastEntry hash (xs @ ys) h =
     (case lastEntry hash ys h of Some e \<Rightarrow> Some e | None \<Rightarrow> lastEntry hash xs h)"
  by (induction xs) (auto split: option.splits)

lemma lastEntry_None:
  "\<forall>l \<in> set ls. hash (lineTitle l) \<noteq> h \<Longrightarrow> lastEntry hash ls h = None"
  by (induction ls) auto

lemma lastEntry_Some:
  "lastEntry hash ls h = Some e \<Longrightarrow>
     \<exists>l \<in> set ls. \<not> malformed l \<and> hash (lineTitle l) = h \<and> lineEntry l = e"
  by (induction ls) (auto split: option.splits if_splits)

lemma entries_lastEntry:
  assumes "\<forall>l \<in> set ls. \<not> malformed l" and "distinct (map (\<lambda>l. hash (lineTitle l)) ls)"
  shows "finite {h. \<exists>e. lastEntry hash ls h = Some e \<and> seek e = off} \<and>
         card {h. \<exists>e. lastEntry hash ls h = Some e \<and> seek e = off} = recordsAt ls off"
  using assms
proof (induction ls)
  case Nil
  then show ?case by (simp add: recordsAt_def)
next
  case (Cons l ls)
  let ?S = "{h. \<exists>e. lastEntry hash ls h = Some e \<and> seek e = off}"
  let ?S' = "{h. \<exists>e. lastEntry hash (l # ls) h = Some e \<and> seek e = off}"
  let ?k = "hash (lineTitle l)"
  have ok: "\<not> malformed l" using Cons.prems(1) by simp
  have "?k \<notin> (\<lambda>x. hash (lineTitle x)) ` set ls"
    using Cons.prems(2) by simp
  then have fresh: "\<forall>x \<in> set ls. hash (lineTitle x) \<noteq> ?k"
    by (metis imageI)
  have none: "lastEntry hash ls ?k = None"
    using fresh by (rule lastEntry_None)
  have notin: "?k \<notin> ?S"
    using none by simp
  have IH: "finite ?S \<and> card ?S = recordsAt ls off"
    using Cons by simp
  have step: "lastEntry hash (l # ls) h =
      (if h = ?k then Some (lineEntry l) else lastEntry hash ls h)" for h
    using none ok by (auto split: option.splits)
  show ?case
  proof (cases "seek (lineEntry l) = off")
    case True
    have "?S' = insert ?k ?S"
      using True none by (auto simp: step simp del: lastEntry.simps)
    then show ?thesis
      using IH notin True ok by (simp add: recordsAt_def)
  next
    case False
    have "?S' = ?S"
      using False none by (auto simp: step simp del: lastEntry.simps)
    then show ?thesis
      using IH False by (simp add: recordsAt_def)
  qed
qed

section \<open>The decoding loop\<close>

declare decodeLoop.simps [simp del]

lemma decodeLoop_done: "\<not> i < k \<Longrightarrow> decodeLoop d p i k meta = (Inl (TriesError k), d)"
  by (subst decodeLoop.simps) simp

lemma decodeLoop_Nil: "i < k \<Longrightarrow> decodeLoop [] p i k meta = (Inl EOF, [])"
  by (subst decodeLoop.simps) simp

lemma decodeLoop_Cons:
  "i < k \<Longrightarrow> decodeLoop (f # d) p i k meta =
     (case f p of
        Inl e \<Rightarrow> (Inl e, d)
      | Inr p' \<Rightarrow> if ID p' = id' meta then (Inr p', d) else decodeLoop d p' (i + 1) k meta)"
  by (subst decodeLoop.simps) (simp split: sum.splits)

lemma decodeLoop_id:
  "decodeLoop d p i k meta = (Inr p', d') \<Longrightarrow> ID p' = id' meta"
proof (induction d arbitrary: p i)
  case Nil
  then show ?case
    by (cases "i < k") (simp_all add: decodeLoop_Nil decodeLoop_done)
next
  case (Cons f d)
  show ?case
  proof (cases "i < k")
    case True
    then show ?thesis
      using Cons.prems Cons.IH
      by (auto simp: decodeLoop_Cons split: sum.splits if_splits)
  next
    case False
    then show ?thesis using Cons.prems by (simp add: decodeLoop_done)
  qed
qed

lemma decodeLoop_calls:
  "decodeLoop d p i k meta = (r, d') \<Longrightarrow>
     length d' \<le> length d \<and> int (length d - length d') \<le> max 0 (k - i)"
proof (induction d arbitrary: p i)
  case Nil
  then show ?case
    by (cases "i < k") (auto simp: decodeLoop_Nil decodeLoop_done)
next
  case (Cons f d)
  show ?case
  proof (cases "i < k")
    case False
    then show ?thesis using Cons.prems by (auto simp: decodeLoop_done)
  next
    case True
    show ?thesis
    proof (cases "f p")
      case (Inl e)
      then show ?thesis using Cons.prems True by (auto simp: decodeLoop_Cons)
    next
      case (Inr p')
      show ?thesis
      proof (cases "ID p' = id' meta")
        case True
        then show ?thesis using Cons.prems \<open>i < k\<close> Inr by (auto simp: decodeLoop_Cons)
      next
        case False
        then have "decodeLoop d p' (i + 1) k meta = (r, d')"
          using Cons.prems \<open>i < k\<close> Inr by (simp add: decodeLoop_Cons)
        from Cons.IH [OF this] show ?thesis using \<open>i < k\<close> by auto
      qed
    qed
  qed
qed

lemma decodeLoop_hit:
  "skips pre p meta = Some p1 \<Longrightarrow> f p1 = Inr p2 \<Longrightarrow> ID p2 = id' meta \<Longrightarrow>
   i + int (length pre) < k \<Longrightarrow>
     decodeLoop (pre @ f # post) p i k meta = (Inr p2, post)"
proof (induction pre arbitrary: p i)
  case Nil
  then show ?case by (simp add: decodeLoop_Cons)
next
  case (Cons g pre)
  from Cons.prems(1) obtain q where q: "g p = Inr q" "ID q \<noteq> id' meta" "skips pre q meta = Some p1"
    by (auto split: sum.splits if_splits)
  have "decodeLoop (pre @ f # post) q (i + 1) k meta = (Inr p2, post)"
    using Cons.prems by (intro Cons.IH [OF q(3)]) auto
  then show ?case
    using Cons.prems(4) q by (simp add: decodeLoop_Cons)
qed

lemma decodeLoop_miss:
  "skips pre p meta = Some p1 \<Longrightarrow> i + int (length pre) = k \<Longrightarrow>
     decodeLoop (pre @ post) p i k meta = (Inl (TriesError k), post)"
proof (induction pre arbitrary: p i)
  case Nil
  then show ?case by (simp add: decodeLoop_done)
next
  case (Cons g pre)
  from Cons.prems(1) obtain q where q: "g p = Inr q" "ID q \<noteq> id' meta" "skips pre q meta = Some p1"
    by (auto split: sum.splits if_splits)
  have "decodeLoop (pre @ post) q (i + 1) k meta = (Inl (TriesError k), post)"
    using Cons.prems by (intro Cons.IH [OF q(3)]) auto
  then show ?case
    using Cons.prems(2) q by (simp add: decodeLoop_Cons)
qed

lemma readArticle_io_ok:
  "openArticles arch = None \<Longrightarrow> seekArticles arch (seek meta) = Inr d \<Longrightarrow>
     readArticle arch meta mu = (fst (decodeLoop d zeroPage 0 (offsetSizeAt mu (seek meta)) meta), mu)"
  by (simp add: readArticle_def)

lemma readArticle_id: "fst (readArticle arch meta mu) = Inr p \<Longrightarrow> ID p = id' meta"
proof (cases "openArticles arch")
  case (Some e)
  assume "fst (readArticle arch meta mu) = Inr p"
  then show ?thesis using Some by (simp add: readArticle_def)
next
  case None
  assume r: "fst (readArticle arch meta mu) = Inr p"
  show ?thesis
  proof (cases "seekArticles arch (seek meta)")
    case (Inl e)
    then show ?thesis using r None by (simp add: readArticle_def)
  next
    case (Inr d)
    obtain d' where "decodeLoop d zeroPage 0 (offsetSizeAt mu (seek meta)) meta = (Inr p, d')"
      using r readArticle_io_ok [OF None Inr, of mu]
      by (cases "decodeLoop d zeroPage 0 (offsetSizeAt mu (seek meta)) meta") auto
    then show ?thesis by (rule decodeLoop_id)
  qed
qed

section \<open>The random pick\<close>

lemma randomArticleHash_iff:
  "randomArticleHash mu r mu' \<longleftrightarrow>
     mu' = mu \<and>
     ((\<exists>h e. offsets mu h = Some e \<and> r = Inr h) \<or> (offsets mu = Map.empty \<and> r = Inl NoArticles))"
  by (auto simp: randomArticleHash.simps)

lemma randomArticle_iff:
  "randomArticle arch mu r mu' \<longleftrightarrow>
     (\<exists>h e. offsets mu h = Some e \<and> readArticle arch e mu = (r, mu')) \<or>
     (offsets mu = Map.empty \<and> r = Inl NoArticles \<and> mu' = mu)"
proof
  assume "randomArticle arch mu r mu'"
  then show "(\<exists>h e. offsets mu h = Some e \<and> readArticle arch e mu = (r, mu')) \<or>
     (offsets mu = Map.empty \<and> r = Inl NoArticles \<and> mu' = mu)"
  proof cases
    case (hash_err err)
    then show ?thesis by (simp add: randomArticleHash_iff)
  next
    case (hash_ok h mu1)
    then obtain e where "offsets mu h = Some e" and "mu1 = mu"
      by (auto simp: randomArticleHash_iff)
    then show ?thesis using hash_ok by (auto simp: offsetsAt_def)
  qed
next
  assume "(\<exists>h e. offsets mu h = Some e \<and> readArticle arch e mu = (r, mu')) \<or>
     (offsets mu = Map.empty \<and> r = Inl NoArticles \<and> mu' = mu)"
  then show "randomArticle arch mu r mu'"
  proof
    assume "\<exists>h e. offsets mu h = Some e \<and> readArticle arch e mu = (r, mu')"
    then obtain h e where he: "offsets mu h = Some e" and r: "readArticle arch e mu = (r, mu')"
      by blast
    have 1: "randomArticleHash mu (Inr h) mu"
      using he by (rule randomArticleHash.first_key)
    have 2: "readArticle arch (offsetsAt mu h) mu = (r, mu')"
      using he r by (simp add: offsetsAt_def)
    show ?thesis
      using 1 2 by (rule randomArticle.hash_ok)
  next
    assume "offsets mu = Map.empty \<and> r = Inl NoArticles \<and> mu' = mu"
    then show ?thesis
      by (auto intro: randomArticle.hash_err randomArticleHash.no_key)
  qed
qed

lemma map_nonempty: "m \<noteq> Map.empty \<Longrightarrow> \<exists>k v. m k = Some v"
  by (metis not_Some_eq ext)

section \<open>The claims\<close>

subsection \<open>C1: lookup after a successful load\<close>

text \<open>
  Claim C1, as the code has it. Let the index stream consist of the lines
  \<open>off:i:title\<close> of \<open>recs\<close>, each with an offset and an id that \<open>strconv.Atoi\<close>
  accepts, and let \<open>loadIndex\<close> return without error. If no other line's title has the
  hash of the title of line \<open>n\<close>, then \<open>fetchArticle\<close> applied to that title returns the
  entry with the id and the offset of line \<open>n\<close>; and so does \<open>fetchArticle\<close> applied to
  any name whose own hash is not a key and whose normalized form is that title. (The
  normalized form of the title itself need not be found: see the counterexample.)
\<close>

theorem loadIndex_then_fetchArticle:
  assumes "scanLines src = map (\<lambda>(a, b, t). indexLine a b t) recs"
    and "\<forall>(a, b, t) \<in> set recs. \<not> isl (Atoi a) \<and> \<not> isl (Atoi b)"
    and "loadIndex hash src mu0 = (None, mu)"
    and "n < length recs" and "recs ! n = (off, i, title)"
    and "Atoi off = Inr sk" and "Atoi i = Inr k"
    and "\<forall>m < length recs. m \<noteq> n \<longrightarrow> hash (snd (snd (recs ! m))) \<noteq> hash title"
  shows "fetchArticle hash toLower toTitle title mu = (Inr \<lparr>id' = k, seek = sk\<rparr>, mu) \<and>
         (\<forall>name. offsets mu (hash name) = None \<and> toTitle (toLower name) = title \<longrightarrow>
            fetchArticle hash toLower toTitle name mu = (Inr \<lparr>id' = k, seek = sk\<rparr>, mu))"
proof -
  let ?f = "\<lambda>(a, b, t). indexLine a b t"
  let ?ls = "scanLines src"
  have run: "scanLoop hash ?ls mu0 = (None, mu)"
    using assms(3) by (rule loadIndex_None)
  have title_of: "lineTitle (?f r) = snd (snd r)" if "r \<in> set recs" for r
  proof -
    obtain a b t where r: "r = (a, b, t)" by (cases r) auto
    have "\<not> isl (Atoi a) \<and> \<not> isl (Atoi b)"
      using assms(2) that r by fastforce
    then obtain x y where "Atoi a = Inr x" and "Atoi b = Inr y"
      by (cases "Atoi a"; cases "Atoi b") auto
    then have "parseLine (indexLine a b t) = Inr (\<lparr>id' = y, seek = x\<rparr>, t)"
      by (rule parseLine_indexLine)
    then show ?thesis using r by (simp add: lineTitle_def)
  qed
  have pn: "parseLine (?ls ! n) = Inr (\<lparr>id' = k, seek = sk\<rparr>, title)"
    using assms(1,4,5) parseLine_indexLine [OF assms(6,7), of title] by simp
  have okn: "\<not> malformed (?ls ! n)" and en: "lineEntry (?ls ! n) = \<lparr>id' = k, seek = sk\<rparr>"
    and tn: "lineTitle (?ls ! n) = title"
    using parseLine_Inr [OF pn] by simp_all
  have len: "length ?ls = length recs"
    using assms(1) by simp
  have later: "\<forall>l \<in> set (drop (Suc n) ?ls). hash (lineTitle l) \<noteq> hash title"
  proof
    fix l
    assume "l \<in> set (drop (Suc n) ?ls)"
    then obtain j where j: "j < length ?ls - Suc n" and l: "l = ?ls ! (Suc n + j)"
      by (auto simp: in_set_conv_nth)
    have m: "Suc n + j < length recs" "Suc n + j \<noteq> n"
      using j len by auto
    have "l = ?f (recs ! (Suc n + j))"
      using l m(1) assms(1) by simp
    then have "lineTitle l = snd (snd (recs ! (Suc n + j)))"
      using title_of [of "recs ! (Suc n + j)"] m(1) by simp
    then show "hash (lineTitle l) \<noteq> hash title"
      using assms(8) m by simp
  qed
  have "lastEntry hash (drop (Suc n) ?ls) (hash title) = None"
    using later by (rule lastEntry_None)
  then have "lastEntry hash (?ls ! n # drop (Suc n) ?ls) (hash title) = Some \<lparr>id' = k, seek = sk\<rparr>"
    using okn en tn by simp
  then have "lastEntry hash (take n ?ls @ ?ls ! n # drop (Suc n) ?ls) (hash title)
               = Some \<lparr>id' = k, seek = sk\<rparr>"
    by (simp only: lastEntry_append option.case)
  then have "lastEntry hash ?ls (hash title) = Some \<lparr>id' = k, seek = sk\<rparr>"
    using id_take_nth_drop [of n ?ls] assms(4) len by simp
  then have hit: "offsets mu (hash title) = Some \<lparr>id' = k, seek = sk\<rparr>"
    using scanLoop_offsets [OF run, of "hash title"] by simp
  then show ?thesis
    by (simp add: fetchArticle_def)
qed

text \<open>
  The index holds the one title \<open>foo bar\<close>. Its normalized form is \<open>Foo Bar\<close>, and
  \<open>fetchArticle\<close> applied to \<open>Foo Bar\<close> finds nothing: the fallback normalizes the name
  asked for, never the titles stored.
\<close>

theorem loadIndex_then_fetchArticle_counterexample:
  "fst (loadIndex exampleHash (okSource [''1024:42:foo bar'']) mu_init) = None \<and>
   asciiTitle (asciiToLower ''foo bar'') = ''Foo Bar'' \<and>
   fst (fetchArticle exampleHash asciiToLower asciiTitle (asciiTitle (asciiToLower ''foo bar''))
          (snd (loadIndex exampleHash (okSource [''1024:42:foo bar'']) mu_init)))
     = Inl (StatusError 404 ''Foo Bar'')"
  by (simp add: example_defs)

text \<open>The same outcome under every hash function that tells the two strings apart.\<close>

lemma fetchArticle_normalized_title_any_hash:
  assumes "hash ''Foo Bar'' \<noteq> hash ''foo bar''"
  shows "fst (fetchArticle hash asciiToLower asciiTitle ''Foo Bar''
                (snd (loadIndex hash (okSource [''1024:42:foo bar'']) mu_init)))
           = Inl (StatusError 404 ''Foo Bar'')"
proof -
  have t: "asciiTitle (asciiToLower ''Foo Bar'') = ''Foo Bar''"
    by (simp add: asciiTitle_def asciiToLower_def isSeparator_def upperLetters_def
        lowerLetters_def)
  have m: "offsets (snd (loadIndex hash (okSource [''1024:42:foo bar'']) mu_init))
             = [hash ''foo bar'' \<mapsto> \<lparr>id' = 42, seek = 1024\<rparr>]"
    by (simp add: loadIndex_def okSource_def parseLine_def Atoi_def isDigit_def digitsVal_def
        insertEntry_def mu_init_def)
  show ?thesis
    using assms by (simp add: fetchArticle_def statusErrorf_def t m)
qed

theorem loadIndex_then_fetchArticle_witness:
  "fst (fetchArticle exampleHash asciiToLower asciiTitle ''Other Page'' exampleIndex)
     = Inr \<lparr>id' = 43, seek = 1024\<rparr> \<and>
   fst (fetchArticle exampleHash asciiToLower asciiTitle ''other page'' exampleIndex)
     = Inr \<lparr>id' = 43, seek = 1024\<rparr>"
proof -
  let ?recs = "[(''1024'', ''42'', ''Test Article''), (''1024'', ''43'', ''Other Page'')]"
  have 1: "scanLines (okSource exampleLines) = map (\<lambda>(a, b, t). indexLine a b t) ?recs"
    by (simp add: okSource_def exampleLines_def indexLine_def)
  have 2: "\<forall>(a, b, t) \<in> set ?recs. \<not> isl (Atoi a) \<and> \<not> isl (Atoi b)"
    by (simp add: Atoi_def isDigit_def digitsVal_def)
  have 3: "loadIndex exampleHash (okSource exampleLines) mu_init = (None, exampleIndex)"
    by (simp add: example_defs)
  have 4: "(1::nat) < length ?recs" and 5: "?recs ! 1 = (''1024'', ''43'', ''Other Page'')"
    by simp_all
  have 6: "Atoi ''1024'' = Inr 1024" and 7: "Atoi ''43'' = Inr 43"
    by (simp_all add: Atoi_def isDigit_def digitsVal_def)
  have 8: "\<forall>m < length ?recs. m \<noteq> 1 \<longrightarrow>
             exampleHash (snd (snd (?recs ! m))) \<noteq> exampleHash ''Other Page''"
  proof (intro allI impI)
    fix m :: nat
    assume "m < length ?recs" and "m \<noteq> 1"
    then have "m = 0" by simp
    then show "exampleHash (snd (snd (?recs ! m))) \<noteq> exampleHash ''Other Page''"
      by (simp add: exampleHash_def)
  qed
  have n: "offsets exampleIndex (exampleHash ''other page'') = None"
    and t: "asciiTitle (asciiToLower ''other page'') = ''Other Page''"
    by (simp_all add: example_defs)
  show ?thesis
    using loadIndex_then_fetchArticle [OF 1 2 3 4 5 6 7 8, of asciiToLower asciiTitle] n t
    by simp
qed

subsection \<open>C2: the counts per offset\<close>

text \<open>
  Claim C2, as the code has it. After the loop has processed the lines \<open>ls\<close> from the
  empty index (fewer than \<open>2 ^ 63\<close> of them, so that the counter does not wrap),
  \<open>mu.offsetSize[off]\<close> is the number of lines processed whose offset is \<open>off\<close>; it is the
  number of entries of \<open>mu.offsets\<close> with that offset when the titles processed have
  pairwise distinct hashes; and processing one more line never decreases it.
\<close>

theorem scanLoop_offsetSize_counts:
  assumes "scanLoop hash ls mu_init = (None, mu)" and "Suc (length ls) < 2 ^ 63"
  shows "offsetSizeAt mu off = int (recordsAt ls off) \<and>
         (distinct (map (\<lambda>l. hash (lineTitle l)) ls) \<longrightarrow>
            offsetSizeAt mu off = int (entriesAt mu off)) \<and>
         (\<forall>l r mu'. scanLoop hash [l] mu = (r, mu') \<longrightarrow>
            offsetSizeAt mu off \<le> offsetSizeAt mu' off)"
proof -
  have z: "offsetSizeAt mu_init off = 0"
    by (simp add: offsetSizeAt_def mu_init_def)
  have "int (Suc (length ls)) < int (2 ^ 63)"
    using assms(2) by (simp only: of_nat_less_iff)
  then have b: "int (length ls) + 1 < 2 ^ 63"
    by simp
  have cnt: "offsetSizeAt mu off = int (recordsAt ls off)"
    using scanLoop_offsetSize [OF assms(1), of off] z b by auto
  have ok: "\<forall>l \<in> set ls. \<not> malformed l"
    using assms(1) by (rule scanLoop_None_ok)
  have offs: "offsets mu h = lastEntry hash ls h" for h
    using scanLoop_offsets [OF assms(1), of h]
    by (simp add: mu_init_def split: option.splits)
  have ent: "entriesAt mu off = recordsAt ls off"
    if "distinct (map (\<lambda>l. hash (lineTitle l)) ls)"
    using entries_lastEntry [OF ok that, of off] by (simp add: entriesAt_def offs)
  have "int (recordsAt ls off) \<le> int (length ls)"
    using recordsAt_le [of ls off] by (simp only: of_nat_le_iff)
  then have up: "int (recordsAt ls off) + 1 < 2 ^ 63"
    using b by linarith
  have mono: "offsetSizeAt mu off \<le> offsetSizeAt mu' off"
    if "scanLoop hash [l] mu = (r, mu')" for l r mu'
  proof -
    have "wrap64 (offsetSizeAt mu off + 1) = offsetSizeAt mu off + 1"
      using cnt up by (intro wrap64_id) auto
    then show ?thesis
      using scanLoop_single [OF that] by (auto simp: offsetSizeAt_insertEntry)
  qed
  show ?thesis
  proof (intro conjI impI allI)
    show "offsetSizeAt mu off = int (recordsAt ls off)"
      by (rule cnt)
  next
    assume "distinct (map (\<lambda>l. hash (lineTitle l)) ls)"
    then show "offsetSizeAt mu off = int (entriesAt mu off)"
      using cnt ent by simp
  next
    fix l r mu'
    assume "scanLoop hash [l] mu = (r, mu')"
    then show "offsetSizeAt mu off \<le> offsetSizeAt mu' off"
      by (rule mono)
  qed
qed

text \<open>
  Two records with the same title and offset 10: the second overwrites the entry of the
  first, and the count of offset 10 is 2 while \<open>mu.offsets\<close> holds one entry with that
  offset.
\<close>

theorem scanLoop_offsetSize_counts_counterexample:
  "fst (loadIndex exampleHash (okSource [''10:1:A'', ''10:2:A'']) mu_init) = None \<and>
   offsetSizeAt (snd (loadIndex exampleHash (okSource [''10:1:A'', ''10:2:A'']) mu_init)) 10 = 2 \<and>
   entriesAt (snd (loadIndex exampleHash (okSource [''10:1:A'', ''10:2:A'']) mu_init)) 10 = 1"
proof -
  have s: "snd (loadIndex exampleHash (okSource [''10:1:A'', ''10:2:A'']) mu_init)
             = \<lparr>offsets = [exampleHash ''A'' \<mapsto> \<lparr>id' = 2, seek = 10\<rparr>], offsetSize = [10 \<mapsto> 2]\<rparr>"
    and f: "fst (loadIndex exampleHash (okSource [''10:1:A'', ''10:2:A'']) mu_init) = None"
    by (simp_all add: loadIndex_def okSource_def parseLine_def Atoi_def
        isDigit_def digitsVal_def insertEntry_def offsetSizeAt_def wrap64_def mu_init_def)
  have "{h. \<exists>e. [exampleHash ''A'' \<mapsto> \<lparr>id' = 2, seek = 10\<rparr>] h = Some e \<and> seek e = 10}
          = {exampleHash ''A''}"
    by auto
  then show ?thesis
    by (simp add: s f entriesAt_def offsetSizeAt_def)
qed

text \<open>The same outcome under every hash function: the two titles are the same string.\<close>

lemma same_title_twice_any_hash:
  "offsetSizeAt (snd (loadIndex hash (okSource [''10:1:A'', ''10:2:A'']) mu_init)) 10 = 2 \<and>
   entriesAt (snd (loadIndex hash (okSource [''10:1:A'', ''10:2:A'']) mu_init)) 10 = 1"
proof -
  have s: "snd (loadIndex hash (okSource [''10:1:A'', ''10:2:A'']) mu_init)
             = \<lparr>offsets = [hash ''A'' \<mapsto> \<lparr>id' = 2, seek = 10\<rparr>], offsetSize = [10 \<mapsto> 2]\<rparr>"
    by (simp add: loadIndex_def okSource_def parseLine_def Atoi_def
        isDigit_def digitsVal_def insertEntry_def offsetSizeAt_def wrap64_def mu_init_def)
  have "{h. \<exists>e. [hash ''A'' \<mapsto> \<lparr>id' = 2, seek = 10\<rparr>] h = Some e \<and> seek e = 10}
          = {hash ''A''}"
    by auto
  then show ?thesis
    by (simp add: s entriesAt_def offsetSizeAt_def)
qed

theorem scanLoop_offsetSize_counts_witness:
  "offsetSizeAt exampleIndex 1024 = 2 \<and> entriesAt exampleIndex 1024 = 2 \<and>
   offsetSizeAt exampleIndex 1024
     \<le> offsetSizeAt (snd (scanLoop exampleHash [''1024:44:Third Page''] exampleIndex)) 1024"
proof -
  have 1: "scanLoop exampleHash exampleLines mu_init = (None, exampleIndex)"
    by (simp add: example_defs)
  have 2: "Suc (length exampleLines) < 2 ^ 63"
    by (simp add: exampleLines_def)
  have d: "distinct (map (\<lambda>l. exampleHash (lineTitle l)) exampleLines)"
    by (simp add: example_defs)
  have r: "recordsAt exampleLines 1024 = 2"
    by (simp add: recordsAt_def example_defs)
  have p: "scanLoop exampleHash [''1024:44:Third Page''] exampleIndex
             = (fst (scanLoop exampleHash [''1024:44:Third Page''] exampleIndex),
                snd (scanLoop exampleHash [''1024:44:Third Page''] exampleIndex))"
    by simp
  note t = scanLoop_offsetSize_counts [OF 1 2, of 1024]
  have a1: "offsetSizeAt exampleIndex 1024 = 2"
    using t r by simp
  have "int (entriesAt exampleIndex 1024) = 2"
    using t d a1 by simp
  then have a2: "entriesAt exampleIndex 1024 = 2"
    by linarith
  have a3: "offsetSizeAt exampleIndex 1024
     \<le> offsetSizeAt (snd (scanLoop exampleHash [''1024:44:Third Page''] exampleIndex)) 1024"
    using t p by blast
  show ?thesis
    using a1 a2 a3 by simp
qed

subsection \<open>C3: a malformed line aborts the load\<close>

text \<open>
  Claim C3. If some line of the stream is malformed, \<open>loadIndex\<close> returns an error, and
  the index it leaves is the one that loading only the lines before the first malformed
  line leaves: no later line is loaded. When the files open, the error returned is the
  error of parsing that first malformed line.
\<close>

theorem loadIndex_malformed_aborts:
  assumes "\<exists>l \<in> set (scanLines src). malformed l"
  shows "fst (loadIndex hash src mu) \<noteq> None \<and>
         snd (loadIndex hash src mu)
           = snd (loadIndex hash
                    (src\<lparr>scanLines := takeWhile (\<lambda>l. \<not> malformed l) (scanLines src)\<rparr>) mu) \<and>
         (bleveNew src = None \<and> openIndex src = None \<and> newReader src = None \<longrightarrow>
            (\<exists>e. parseLine (hd (dropWhile (\<lambda>l. \<not> malformed l) (scanLines src))) = Inl e \<and>
                 fst (loadIndex hash src mu) = Some e))"
proof -
  let ?pre = "takeWhile (\<lambda>l. \<not> malformed l) (scanLines src)"
  let ?suf = "dropWhile (\<lambda>l. \<not> malformed l) (scanLines src)"
  have ne: "?suf \<noteq> []"
    using assms by (simp add: dropWhile_eq_Nil_conv)
  then obtain bad post where suf: "?suf = bad # post"
    by (cases ?suf) auto
  have bad: "malformed bad"
    using hd_dropWhile [OF ne] suf by simp
  then obtain e where e: "parseLine bad = Inl e"
    using parseLine_bad by blast
  have pre: "\<forall>l \<in> set ?pre. \<not> malformed l"
    by (auto dest: set_takeWhileD)
  have split: "scanLines src = ?pre @ bad # post"
    using takeWhile_dropWhile_id [of "\<lambda>l. \<not> malformed l" "scanLines src"] suf by simp
  have run: "scanLoop hash (scanLines src) mu = (Some e, snd (scanLoop hash ?pre mu))"
    using scanLoop_stop [OF pre e, of hash post mu] split by simp
  have runpre: "fst (scanLoop hash ?pre mu) = None"
    using scanLoop_ok [OF pre] by simp
  obtain m where m: "scanLoop hash ?pre mu = (None, m)"
    using runpre by (cases "scanLoop hash ?pre mu") auto
  show ?thesis
    using run m e suf
    by (simp add: loadIndex_def split: option.splits)
qed

theorem loadIndex_malformed_aborts_witness:
  "fst (loadIndex exampleHash (okSource [''10:1:A'', ''oops'', ''20:2:B'']) mu_init)
     = Some (PartsError [''oops'']) \<and>
   snd (loadIndex exampleHash (okSource [''10:1:A'', ''oops'', ''20:2:B'']) mu_init)
     = snd (loadIndex exampleHash (okSource [''10:1:A'']) mu_init)"
  using loadIndex_malformed_aborts
          [of "okSource [''10:1:A'', ''oops'', ''20:2:B'']" exampleHash mu_init]
  by (simp add: example_defs)

subsection \<open>C4: colons inside the title\<close>

text \<open>
  Claim C4. For every offset field and id field that \<open>strconv.Atoi\<close> accepts and every
  title, with or without colons, the line \<open>off:i:title\<close> parses to the whole of
  \<open>title\<close>, and the loop stores the entry under the hash of the whole of \<open>title\<close>.
\<close>

theorem parseLine_rejoins_title:
  assumes "Atoi off = Inr sk" and "Atoi i = Inr n"
  shows "parseLine (indexLine off i title) = Inr (\<lparr>id' = n, seek = sk\<rparr>, title) \<and>
         scanLoop hash [indexLine off i title] mu
           = (None, insertEntry (hash title) \<lparr>id' = n, seek = sk\<rparr> mu)"
  using parseLine_indexLine [OF assms] by simp

theorem parseLine_rejoins_title_witness:
  "parseLine ''1024:42:Star Trek: The Next Generation''
     = Inr (\<lparr>id' = 42, seek = 1024\<rparr>, ''Star Trek: The Next Generation'') \<and>
   offsets (snd (scanLoop exampleHash [''1024:42:Star Trek: The Next Generation''] mu_init))
     (exampleHash ''Star Trek: The Next Generation'') = Some \<lparr>id' = 42, seek = 1024\<rparr> \<and>
   exampleHash ''Star Trek: The Next Generation'' \<noteq> exampleHash ''Star Trek''"
proof -
  have a: "Atoi ''1024'' = Inr 1024" and b: "Atoi ''42'' = Inr 42"
    by (simp_all add: Atoi_def isDigit_def digitsVal_def)
  have l: "indexLine ''1024'' ''42'' ''Star Trek: The Next Generation''
             = ''1024:42:Star Trek: The Next Generation''"
    by (simp add: indexLine_def)
  show ?thesis
    using parseLine_rejoins_title [OF a b, of "''Star Trek: The Next Generation''" exampleHash mu_init]
    by (simp add: l insertEntry_def exampleHash_def)
qed

subsection \<open>C5: the bounded scan of readArticle\<close>

text \<open>
  Claim C5. A page that \<open>readArticle\<close> returns has the id asked for. When the archive
  opens and the seek succeeds, with \<open>k\<close> the count recorded for the offset: the result is
  that of the decoding loop; the loop calls \<open>Decode\<close> at most \<open>k\<close> times (never, when
  \<open>k\<close> is negative); if fewer than \<open>k\<close> decodes succeed with another id and the next one
  yields the id asked for, that page is returned and nothing after it is decoded; if
  exactly \<open>k\<close> decodes succeed with another id, the result is the error "failed to find
  page after k tries" and nothing after them is decoded.
\<close>

theorem readArticle_bounded_scan:
  "(\<forall>p. fst (readArticle arch meta mu) = Inr p \<longrightarrow> ID p = id' meta) \<and>
   (openArticles arch = None \<and> seekArticles arch (seek meta) = Inr d \<and>
    k = offsetSizeAt mu (seek meta) \<and> decodeLoop d zeroPage 0 k meta = (r, d') \<longrightarrow>
      readArticle arch meta mu = (r, mu) \<and>
      length d' \<le> length d \<and> int (length d - length d') \<le> max 0 k \<and>
      (\<forall>pre f post p1 p2.
         d = pre @ f # post \<and> int (length pre) < k \<and> skips pre zeroPage meta = Some p1 \<and>
         f p1 = Inr p2 \<and> ID p2 = id' meta \<longrightarrow> r = Inr p2 \<and> d' = post) \<and>
      (\<forall>pre post p1.
         d = pre @ post \<and> int (length pre) = k \<and> skips pre zeroPage meta = Some p1 \<longrightarrow>
         r = Inl (TriesError k) \<and> d' = post))"
proof -
  have A: "\<forall>p. fst (readArticle arch meta mu) = Inr p \<longrightarrow> ID p = id' meta"
    using readArticle_id by blast
  have B: "readArticle arch meta mu = (r, mu) \<and>
      length d' \<le> length d \<and> int (length d - length d') \<le> max 0 k \<and>
      (\<forall>pre f post p1 p2.
         d = pre @ f # post \<and> int (length pre) < k \<and> skips pre zeroPage meta = Some p1 \<and>
         f p1 = Inr p2 \<and> ID p2 = id' meta \<longrightarrow> r = Inr p2 \<and> d' = post) \<and>
      (\<forall>pre post p1.
         d = pre @ post \<and> int (length pre) = k \<and> skips pre zeroPage meta = Some p1 \<longrightarrow>
         r = Inl (TriesError k) \<and> d' = post)"
    if op: "openArticles arch = None" and sk: "seekArticles arch (seek meta) = Inr d"
      and k: "k = offsetSizeAt mu (seek meta)" and run: "decodeLoop d zeroPage 0 k meta = (r, d')"
  proof (intro conjI allI impI)
    show "readArticle arch meta mu = (r, mu)"
      using readArticle_io_ok [OF op sk, of mu] run k by simp
    show "length d' \<le> length d" and "int (length d - length d') \<le> max 0 k"
      using decodeLoop_calls [OF run] by auto
  next
    fix pre f post p1 p2
    assume g: "d = pre @ f # post \<and> int (length pre) < k \<and> skips pre zeroPage meta = Some p1 \<and>
         f p1 = Inr p2 \<and> ID p2 = id' meta"
    have "decodeLoop (pre @ f # post) zeroPage 0 k meta = (Inr p2, post)"
      using g by (intro decodeLoop_hit [where ?p1.0 = p1]) auto
    then show "r = Inr p2" and "d' = post"
      using run g by simp_all
  next
    fix pre post p1
    assume g: "d = pre @ post \<and> int (length pre) = k \<and> skips pre zeroPage meta = Some p1"
    have "decodeLoop (pre @ post) zeroPage 0 k meta = (Inl (TriesError k), post)"
      using g by (intro decodeLoop_miss [where ?p1.0 = p1]) auto
    then show "r = Inl (TriesError k)" and "d' = post"
      using run g by simp_all
  qed
  show ?thesis
    using A B by blast
qed

theorem readArticle_bounded_scan_witness:
  "readArticle exampleArchive \<lparr>id' = 43, seek = 1024\<rparr> exampleIndex
     = (Inr (zeroPage\<lparr>Title := ''Other Page'', ID := 43\<rparr>), exampleIndex) \<and>
   decodeLoop examplePages zeroPage 0 2 \<lparr>id' = 43, seek = 1024\<rparr>
     = (Inr (zeroPage\<lparr>Title := ''Other Page'', ID := 43\<rparr>), []) \<and>
   decodeLoop examplePages zeroPage 0 1 \<lparr>id' = 43, seek = 1024\<rparr>
     = (Inl (TriesError 1), tl examplePages)"
proof -
  let ?m = "\<lparr>id' = 43, seek = 1024\<rparr>"
  let ?f1 = "\<lambda>p. Inr (p\<lparr>Title := ''Test Article'', ID := 42\<rparr>) :: error + page"
  let ?f2 = "\<lambda>p. Inr (p\<lparr>Title := ''Other Page'', ID := 43\<rparr>) :: error + page"
  let ?p1 = "zeroPage\<lparr>Title := ''Test Article'', ID := 42\<rparr>"
  let ?p2 = "zeroPage\<lparr>Title := ''Other Page'', ID := 43\<rparr>"
  let ?one = "exampleIndex\<lparr>offsetSize := [1024 \<mapsto> 1]\<rparr>"
  have k: "2 = offsetSizeAt exampleIndex (seek ?m)"
    by (simp add: example_defs)
  have k1: "1 = offsetSizeAt ?one (seek ?m)"
    by (simp add: offsetSizeAt_def)
  have op: "openArticles exampleArchive = None"
    and sk: "seekArticles exampleArchive (seek ?m) = Inr examplePages"
    by (simp_all add: exampleArchive_def)
  obtain r d where run: "decodeLoop examplePages zeroPage 0 2 ?m = (r, d)"
    by (cases "decodeLoop examplePages zeroPage 0 2 ?m") auto
  obtain r1 d1 where run1: "decodeLoop examplePages zeroPage 0 1 ?m = (r1, d1)"
    by (cases "decodeLoop examplePages zeroPage 0 1 ?m") auto
  have sk1: "skips [?f1] zeroPage ?m = Some ?p1"
    by simp
  have hit: "examplePages = [?f1] @ ?f2 # [] \<and> int (length [?f1]) < 2 \<and>
      skips [?f1] zeroPage ?m = Some ?p1 \<and> ?f2 ?p1 = Inr ?p2 \<and> ID ?p2 = id' ?m"
    using sk1 by (simp add: examplePages_def)
  have miss: "examplePages = [?f1] @ tl examplePages \<and> int (length [?f1]) = 1 \<and>
      skips [?f1] zeroPage ?m = Some ?p1"
    using sk1 by (simp add: examplePages_def)
  note T = readArticle_bounded_scan [of exampleArchive ?m exampleIndex examplePages 2 r d]
  have A: "readArticle exampleArchive ?m exampleIndex = (r, exampleIndex)"
    and B: "\<forall>pre f post p1 p2.
         examplePages = pre @ f # post \<and> int (length pre) < 2 \<and> skips pre zeroPage ?m = Some p1 \<and>
         f p1 = Inr p2 \<and> ID p2 = id' ?m \<longrightarrow> r = Inr p2 \<and> d = post"
    using T op sk k run by blast+
  note T1 = readArticle_bounded_scan [of exampleArchive ?m ?one examplePages 1 r1 d1]
  have C: "\<forall>pre post p1.
         examplePages = pre @ post \<and> int (length pre) = 1 \<and> skips pre zeroPage ?m = Some p1 \<longrightarrow>
         r1 = Inl (TriesError 1) \<and> d1 = post"
    using T1 op sk k1 run1 by blast
  have "r = Inr ?p2 \<and> d = []"
    using B [rule_format, of "[?f1]" ?f2 "[]" ?p1 ?p2] hit by blast
  moreover have "r1 = Inl (TriesError 1) \<and> d1 = tl examplePages"
    using C [rule_format, of "[?f1]" "tl examplePages" ?p1] miss by blast
  ultimately show ?thesis
    using A run run1 by simp
qed

subsection \<open>C6: exact match first, then the normalized form\<close>

text \<open>
  Claim C6. \<open>fetchArticle\<close> returns the entry under the hash of the name when there is
  one, whatever is stored under the hash of the normalized form; otherwise the entry under
  the hash of \<open>strings.Title(strings.ToLower(name))\<close> when there is one; otherwise the
  404 error that carries the name as it was given.
\<close>

theorem fetchArticle_exact_then_normalized:
  "(\<forall>e. offsets mu (hash t) = Some e \<longrightarrow>
      fetchArticle hash toLower toTitle t mu = (Inr e, mu)) \<and>
   (\<forall>e. offsets mu (hash t) = None \<and> offsets mu (hash (toTitle (toLower t))) = Some e \<longrightarrow>
      fetchArticle hash toLower toTitle t mu = (Inr e, mu)) \<and>
   (offsets mu (hash t) = None \<and> offsets mu (hash (toTitle (toLower t))) = None \<longrightarrow>
      fetchArticle hash toLower toTitle t mu = (Inl (StatusError 404 t), mu))"
  by (simp add: fetchArticle_def statusErrorf_def)

theorem fetchArticle_exact_then_normalized_witness:
  "fst (fetchArticle exampleHash asciiToLower asciiTitle ''foo bar''
          (snd (loadIndex exampleHash (okSource [''7:1:Foo Bar'']) mu_init)))
     = Inr \<lparr>id' = 1, seek = 7\<rparr> \<and>
   fst (fetchArticle exampleHash asciiToLower asciiTitle ''foo bar''
          (snd (loadIndex exampleHash (okSource [''7:1:Foo Bar'', ''9:2:foo bar'']) mu_init)))
     = Inr \<lparr>id' = 2, seek = 9\<rparr> \<and>
   fst (fetchArticle exampleHash asciiToLower asciiTitle ''foo bar''
          (snd (loadIndex exampleHash (okSource [''7:1:Foo Baz'']) mu_init)))
     = Inl (StatusError 404 ''foo bar'')"
  using fetchArticle_exact_then_normalized
          [of "snd (loadIndex exampleHash (okSource [''7:1:Foo Bar'']) mu_init)"
              exampleHash "''foo bar''" asciiToLower asciiTitle]
        fetchArticle_exact_then_normalized
          [of "snd (loadIndex exampleHash (okSource [''7:1:Foo Bar'', ''9:2:foo bar'']) mu_init)"
              exampleHash "''foo bar''" asciiToLower asciiTitle]
        fetchArticle_exact_then_normalized
          [of "snd (loadIndex exampleHash (okSource [''7:1:Foo Baz'']) mu_init)"
              exampleHash "''foo bar''" asciiToLower asciiTitle]
  by (simp add: example_defs)

subsection \<open>C7: the random pick\<close>

text \<open>
  Claim C7, as the code has it. On an index without entries the only outcome of
  \<open>randomArticleHash\<close>, and of \<open>randomArticle\<close>, is the error "no articles". On an index
  with entries \<open>randomArticleHash\<close> has an outcome, and its outcomes are exactly the keys
  of \<open>mu.offsets\<close>, each returned without error; \<open>randomArticle\<close> has an outcome, and its
  outcomes are exactly the results of \<open>readArticle\<close> on the entries the index holds: a
  page without error when \<open>readArticle\<close> succeeds, the error of \<open>readArticle\<close> when it
  fails (see the counterexample).
\<close>

theorem randomArticleHash_empty_or_key:
  "(offsets mu = Map.empty \<longrightarrow>
      (\<forall>r mu'. randomArticleHash mu r mu' \<longleftrightarrow> r = Inl NoArticles \<and> mu' = mu) \<and>
      (\<forall>r mu'. randomArticle arch mu r mu' \<longleftrightarrow> r = Inl NoArticles \<and> mu' = mu)) \<and>
   (offsets mu \<noteq> Map.empty \<longrightarrow>
      (\<exists>h e. offsets mu h = Some e \<and> randomArticleHash mu (Inr h) mu) \<and>
      (\<forall>r mu'. randomArticleHash mu r mu' \<longleftrightarrow>
         mu' = mu \<and> (\<exists>h e. offsets mu h = Some e \<and> r = Inr h)) \<and>
      (\<exists>h e. offsets mu h = Some e \<and>
         randomArticle arch mu (fst (readArticle arch e mu)) (snd (readArticle arch e mu))) \<and>
      (\<forall>r mu'. randomArticle arch mu r mu' \<longleftrightarrow>
         (\<exists>h e. offsets mu h = Some e \<and> readArticle arch e mu = (r, mu'))) \<and>
      (\<forall>r mu' p. randomArticle arch mu r mu' \<and> r = Inr p \<longrightarrow>
         (\<exists>h e. offsets mu h = Some e \<and> ID p = id' e)))"
proof (intro conjI impI)
  assume "offsets mu = Map.empty"
  then show "\<forall>r mu'. randomArticleHash mu r mu' \<longleftrightarrow> r = Inl NoArticles \<and> mu' = mu"
    by (auto simp: randomArticleHash_iff)
next
  assume "offsets mu = Map.empty"
  then show "\<forall>r mu'. randomArticle arch mu r mu' \<longleftrightarrow> r = Inl NoArticles \<and> mu' = mu"
    by (simp add: randomArticle_iff)
next
  assume "offsets mu \<noteq> Map.empty"
  then show "\<exists>h e. offsets mu h = Some e \<and> randomArticleHash mu (Inr h) mu"
    using map_nonempty [of "offsets mu"] by (auto simp: randomArticleHash_iff)
next
  assume "offsets mu \<noteq> Map.empty"
  then show "\<forall>r mu'. randomArticleHash mu r mu' \<longleftrightarrow>
         mu' = mu \<and> (\<exists>h e. offsets mu h = Some e \<and> r = Inr h)"
    by (auto simp: randomArticleHash_iff)
next
  assume "offsets mu \<noteq> Map.empty"
  then obtain h e where he: "offsets mu h = Some e"
    using map_nonempty [of "offsets mu"] by blast
  have "readArticle arch e mu = (fst (readArticle arch e mu), snd (readArticle arch e mu))"
    by simp
  then have "randomArticle arch mu (fst (readArticle arch e mu)) (snd (readArticle arch e mu))"
    using he randomArticle_iff by blast
  then show "\<exists>h e. offsets mu h = Some e \<and>
         randomArticle arch mu (fst (readArticle arch e mu)) (snd (readArticle arch e mu))"
    using he by blast
next
  assume "offsets mu \<noteq> Map.empty"
  then show "\<forall>r mu'. randomArticle arch mu r mu' \<longleftrightarrow>
         (\<exists>h e. offsets mu h = Some e \<and> readArticle arch e mu = (r, mu'))"
    by (simp add: randomArticle_iff)
next
  assume ne: "offsets mu \<noteq> Map.empty"
  show "\<forall>r mu' p. randomArticle arch mu r mu' \<and> r = Inr p \<longrightarrow>
         (\<exists>h e. offsets mu h = Some e \<and> ID p = id' e)"
  proof (intro allI impI)
    fix r mu' p
    assume a: "randomArticle arch mu r mu' \<and> r = Inr p"
    then obtain h e where he: "offsets mu h = Some e" and ra: "readArticle arch e mu = (r, mu')"
      using ne randomArticle_iff by blast
    have "fst (readArticle arch e mu) = Inr p"
      using a ra by simp
    then have "ID p = id' e"
      by (rule readArticle_id)
    then show "\<exists>h e. offsets mu h = Some e \<and> ID p = id' e"
      using he by blast
  qed
qed

text \<open>
  The index of the example holds two entries, and the archive does not open:
  \<open>randomArticle\<close> returns the error of \<open>os.Open\<close>, and the page of the entry is not an
  outcome.
\<close>

theorem randomArticleHash_empty_or_key_counterexample:
  "offsets exampleIndex (exampleHash ''Other Page'') = Some \<lparr>id' = 43, seek = 1024\<rparr> \<and>
   randomArticle
     \<lparr>openArticles = Some (IOError ''open''), seekArticles = (\<lambda>off. Inr examplePages)\<rparr>
     exampleIndex (Inl (IOError ''open'')) exampleIndex \<and>
   \<not> randomArticle
     \<lparr>openArticles = Some (IOError ''open''), seekArticles = (\<lambda>off. Inr examplePages)\<rparr>
     exampleIndex (Inr (zeroPage\<lparr>Title := ''Other Page'', ID := 43\<rparr>)) exampleIndex"
proof -
  let ?bad = "\<lparr>openArticles = Some (IOError ''open''), seekArticles = (\<lambda>off. Inr examplePages)\<rparr>"
  have o: "offsets exampleIndex (exampleHash ''Other Page'') = Some \<lparr>id' = 43, seek = 1024\<rparr>"
    by (simp add: example_defs)
  have r: "\<And>e. readArticle ?bad e exampleIndex = (Inl (IOError ''open''), exampleIndex)"
    by (simp add: readArticle_def)
  have 1: "randomArticle ?bad exampleIndex (Inl (IOError ''open'')) exampleIndex"
    using o r randomArticle_iff by blast
  have 2: "\<not> randomArticle ?bad exampleIndex
              (Inr (zeroPage\<lparr>Title := ''Other Page'', ID := 43\<rparr>)) exampleIndex"
    by (simp add: randomArticle_iff r)
  show ?thesis
    using o 1 2 by blast
qed

text \<open>On a non-empty index with that archive, the error is the only outcome.\<close>

lemma randomArticle_unopenable_archive:
  assumes "offsets mu \<noteq> Map.empty"
  shows "randomArticle \<lparr>openArticles = Some err, seekArticles = sk\<rparr> mu r mu'
           \<longleftrightarrow> r = Inl err \<and> mu' = mu"
proof -
  have r: "\<And>e. readArticle \<lparr>openArticles = Some err, seekArticles = sk\<rparr> e mu = (Inl err, mu)"
    by (simp add: readArticle_def)
  obtain h e where "offsets mu h = Some e"
    using assms map_nonempty [of "offsets mu"] by blast
  then show ?thesis
    using assms by (auto simp: randomArticle_iff r)
qed

theorem randomArticleHash_empty_or_key_witness:
  "(\<forall>r mu'. randomArticleHash mu_init r mu' \<longleftrightarrow> r = Inl NoArticles \<and> mu' = mu_init) \<and>
   (\<forall>r mu'. randomArticle exampleArchive mu_init r mu' \<longleftrightarrow> r = Inl NoArticles \<and> mu' = mu_init) \<and>
   randomArticleHash (insertEntry 5 \<lparr>id' = 42, seek = 1024\<rparr> mu_init) (Inr 5)
     (insertEntry 5 \<lparr>id' = 42, seek = 1024\<rparr> mu_init) \<and>
   \<not> randomArticleHash (insertEntry 5 \<lparr>id' = 42, seek = 1024\<rparr> mu_init) (Inl NoArticles)
     (insertEntry 5 \<lparr>id' = 42, seek = 1024\<rparr> mu_init) \<and>
   randomArticle exampleArchive exampleIndex
     (Inr (zeroPage\<lparr>Title := ''Other Page'', ID := 43\<rparr>)) exampleIndex"
proof -
  let ?mu = "insertEntry 5 \<lparr>id' = 42, seek = 1024\<rparr> mu_init"
  let ?m = "\<lparr>id' = 43, seek = 1024\<rparr>"
  have e: "offsets mu_init = Map.empty"
    by (simp add: mu_init_def)
  have n: "offsets ?mu \<noteq> Map.empty"
    by (simp add: insertEntry_def)
  have k5: "offsets ?mu 5 = Some \<lparr>id' = 42, seek = 1024\<rparr>"
    by (simp add: insertEntry_def)
  have A: "(\<forall>r mu'. randomArticleHash mu_init r mu' \<longleftrightarrow> r = Inl NoArticles \<and> mu' = mu_init) \<and>
     (\<forall>r mu'. randomArticle exampleArchive mu_init r mu' \<longleftrightarrow> r = Inl NoArticles \<and> mu' = mu_init)"
    using randomArticleHash_empty_or_key [of mu_init exampleArchive] e
    by blast
  have B: "\<forall>r mu'. randomArticleHash ?mu r mu' \<longleftrightarrow>
     mu' = ?mu \<and> (\<exists>h e. offsets ?mu h = Some e \<and> r = Inr h)"
    using randomArticleHash_empty_or_key [of ?mu exampleArchive] n
    by blast
  have C: "randomArticleHash ?mu (Inr 5) ?mu"
    using B k5 by blast
  have D: "\<not> randomArticleHash ?mu (Inl NoArticles) ?mu"
    using B by blast
  have o: "offsets exampleIndex (exampleHash ''Other Page'') = Some ?m"
    by (simp add: example_defs)
  then have ne: "offsets exampleIndex \<noteq> Map.empty"
    by auto
  have k: "offsetSizeAt exampleIndex 1024 = 2"
    by (simp add: example_defs)
  have d: "decodeLoop examplePages zeroPage 0 2 ?m
             = (Inr (zeroPage\<lparr>Title := ''Other Page'', ID := 43\<rparr>), [])"
    by (simp add: examplePages_def decodeLoop_Cons)
  have p: "readArticle exampleArchive ?m exampleIndex
             = (Inr (zeroPage\<lparr>Title := ''Other Page'', ID := 43\<rparr>), exampleIndex)"
    by (simp add: readArticle_def exampleArchive_def k d)
  have E: "\<forall>r mu'. randomArticle exampleArchive exampleIndex r mu' \<longleftrightarrow>
         (\<exists>h e. offsets exampleIndex h = Some e \<and> readArticle exampleArchive e exampleIndex = (r, mu'))"
    using randomArticleHash_empty_or_key [of exampleIndex exampleArchive] ne
    by blast
  have F: "randomArticle exampleArchive exampleIndex
     (Inr (zeroPage\<lparr>Title := ''Other Page'', ID := 43\<rparr>)) exampleIndex"
    using E o p by blast
  show ?thesis
    using A C D F by blast
qed

subsection \<open>C8: the lookups leave the index unchanged\<close>

text \<open>
  Claim C8. \<open>fetchArticle\<close>, \<open>readArticle\<close>, \<open>randomArticleHash\<close> and
  \<open>randomArticle\<close> return the two maps as they found them, whether they succeed or
  fail; \<open>readArticle\<close> called again on the same entry and archive returns the same
  result.
\<close>

theorem lookups_leave_mu:
  "snd (fetchArticle hash toLower toTitle name mu) = mu \<and>
   snd (readArticle arch meta mu) = mu \<and>
   (\<forall>r mu'. randomArticleHash mu r mu' \<longrightarrow> mu' = mu) \<and>
   (\<forall>r mu'. randomArticle arch mu r mu' \<longrightarrow> mu' = mu) \<and>
   readArticle arch meta (snd (readArticle arch meta mu)) = readArticle arch meta mu"
proof -
  have f: "snd (fetchArticle hash toLower toTitle name mu) = mu"
    by (simp add: fetchArticle_def split: option.splits)
  have r: "\<And>m. snd (readArticle arch m mu) = mu"
    by (simp add: readArticle_def Let_def split: option.splits sum.splits)
  have h: "\<forall>r mu'. randomArticleHash mu r mu' \<longrightarrow> mu' = mu"
    by (simp add: randomArticleHash_iff)
  have a: "\<forall>r mu'. randomArticle arch mu r mu' \<longrightarrow> mu' = mu"
  proof (intro allI impI)
    fix x mu'
    assume "randomArticle arch mu x mu'"
    then consider e where "readArticle arch e mu = (x, mu')" | "mu' = mu"
      using randomArticle_iff by blast
    then show "mu' = mu"
    proof cases
      case 1
      then show ?thesis using r [of e] by simp
    next
      case 2
      then show ?thesis .
    qed
  qed
  show ?thesis
    using f r h a by simp
qed

theorem lookups_leave_mu_witness:
  "randomArticleHash exampleIndex (Inr (exampleHash ''Other Page'')) exampleIndex \<and>
   randomArticle exampleArchive exampleIndex
     (Inr (zeroPage\<lparr>Title := ''Other Page'', ID := 43\<rparr>)) exampleIndex \<and>
   snd (fetchArticle exampleHash asciiToLower asciiTitle ''No Such Page'' exampleIndex) = exampleIndex \<and>
   fst (fetchArticle exampleHash asciiToLower asciiTitle ''No Such Page'' exampleIndex)
     = Inl (StatusError 404 ''No Such Page'') \<and>
   readArticle exampleArchive \<lparr>id' = 43, seek = 1024\<rparr>
       (snd (readArticle exampleArchive \<lparr>id' = 43, seek = 1024\<rparr> exampleIndex))
     = readArticle exampleArchive \<lparr>id' = 43, seek = 1024\<rparr> exampleIndex"
proof -
  let ?m = "\<lparr>id' = 43, seek = 1024\<rparr>"
  have o: "offsets exampleIndex (exampleHash ''Other Page'') = Some ?m"
    by (simp add: example_defs)
  have h: "randomArticleHash exampleIndex (Inr (exampleHash ''Other Page'')) exampleIndex"
    using o by (rule randomArticleHash.first_key)
  have k: "offsetSizeAt exampleIndex 1024 = 2"
    by (simp add: example_defs)
  have d: "decodeLoop examplePages zeroPage 0 2 ?m
             = (Inr (zeroPage\<lparr>Title := ''Other Page'', ID := 43\<rparr>), [])"
    by (simp add: examplePages_def decodeLoop_Cons)
  have p: "readArticle exampleArchive ?m exampleIndex
             = (Inr (zeroPage\<lparr>Title := ''Other Page'', ID := 43\<rparr>), exampleIndex)"
    by (simp add: readArticle_def exampleArchive_def k d)
  have a: "randomArticle exampleArchive exampleIndex
     (Inr (zeroPage\<lparr>Title := ''Other Page'', ID := 43\<rparr>)) exampleIndex"
    using o p randomArticle_iff by blast
  have f: "fst (fetchArticle exampleHash asciiToLower asciiTitle ''No Such Page'' exampleIndex)
     = Inl (StatusError 404 ''No Such Page'')"
    by (simp add: example_defs)
  show ?thesis
    using lookups_leave_mu [of exampleHash asciiToLower asciiTitle "''No Such Page''" exampleIndex
        exampleArchive ?m] h a f
    by blast
qed

subsection \<open>C9: the later of two colliding lines wins\<close>

text \<open>
  Claim C9. Let all lines be well formed, and let the titles of two lines have the same
  hash, with no line after the second one hashing to it. Then \<open>loadIndex\<close> reports no
  error of its own (it returns what \<open>scanner.Err()\<close> returns), and \<open>mu.offsets\<close> holds
  the entry of the second line under that hash.
\<close>

theorem loadIndex_last_write_wins:
  assumes "bleveNew src = None" and "openIndex src = None" and "newReader src = None"
    and "scanLines src = pre @ l1 # mid @ l2 # post"
    and "\<forall>l \<in> set (scanLines src). \<not> malformed l"
    and "hash (lineTitle l1) = hash (lineTitle l2)"
    and "\<forall>l \<in> set post. hash (lineTitle l) \<noteq> hash (lineTitle l2)"
  shows "fst (loadIndex hash src mu0) = scanErr src \<and>
         offsets (snd (loadIndex hash src mu0)) (hash (lineTitle l1)) = Some (lineEntry l2)"
proof -
  obtain mu where run: "scanLoop hash (scanLines src) mu0 = (None, mu)"
    using scanLoop_ok [OF assms(5), of hash mu0]
    by (cases "scanLoop hash (scanLines src) mu0") auto
  have load: "loadIndex hash src mu0 = (scanErr src, mu)"
    using assms(1-3) run by (rule loadIndex_ok)
  have ok2: "\<not> malformed l2"
    using assms(4,5) by simp
  have "lastEntry hash post (hash (lineTitle l2)) = None"
    using assms(7) by (rule lastEntry_None)
  then have "lastEntry hash (l2 # post) (hash (lineTitle l2)) = Some (lineEntry l2)"
    using ok2 by simp
  then have "lastEntry hash ((pre @ l1 # mid) @ l2 # post) (hash (lineTitle l2)) = Some (lineEntry l2)"
    by (simp only: lastEntry_append option.case)
  then have "lastEntry hash (scanLines src) (hash (lineTitle l1)) = Some (lineEntry l2)"
    using assms(4,6) by simp
  then have "offsets mu (hash (lineTitle l1)) = Some (lineEntry l2)"
    using scanLoop_offsets [OF run, of "hash (lineTitle l1)"] by simp
  then show ?thesis
    using load by simp
qed

theorem loadIndex_last_write_wins_witness:
  "fst (loadIndex exampleHash (okSource [''10:1:A'', ''20:2:A'']) mu_init) = None \<and>
   offsets (snd (loadIndex exampleHash (okSource [''10:1:A'', ''20:2:A'']) mu_init)) (exampleHash ''A'')
     = Some \<lparr>id' = 2, seek = 20\<rparr>"
proof -
  let ?src = "okSource [''10:1:A'', ''20:2:A'']"
  have 1: "bleveNew ?src = None" and 2: "openIndex ?src = None" and 3: "newReader ?src = None"
    and 4: "scanLines ?src = [] @ ''10:1:A'' # [] @ ''20:2:A'' # []"
    and e: "scanErr ?src = None"
    by (simp_all add: okSource_def)
  have 5: "\<forall>l \<in> set (scanLines ?src). \<not> malformed l"
    by (simp add: okSource_def malformed_def Atoi_def isDigit_def digitsVal_def)
  have t: "lineTitle ''10:1:A'' = ''A''" "lineTitle ''20:2:A'' = ''A''"
    and n: "lineEntry ''20:2:A'' = \<lparr>id' = 2, seek = 20\<rparr>"
    by (simp_all add: lineTitle_def lineEntry_def parseLine_def Atoi_def isDigit_def digitsVal_def)
  have 6: "exampleHash (lineTitle ''10:1:A'') = exampleHash (lineTitle ''20:2:A'')"
    by (simp add: t)
  have 7: "\<forall>l \<in> set []. exampleHash (lineTitle l) \<noteq> exampleHash (lineTitle ''20:2:A'')"
    by simp
  show ?thesis
    using loadIndex_last_write_wins [OF 1 2 3 4 5 6 7, of mu_init] e t n by simp
qed

subsection \<open>C10: an offset without a recorded count\<close>

text \<open>
  Claim C10, as the code has it. If the offset of the entry is not a key of
  \<open>mu.offsetSize\<close>, \<open>readArticle\<close> returns an error in every case; when the archive
  opens and the seek succeeds, that error is "failed to find page after 0 tries" and
  \<open>Decode\<close> is not called, whatever the archive holds at the offset. When the archive
  does not open, the error returned is that of \<open>os.Open\<close>; when it opens and the seek
  fails, the error returned is that of \<open>File.Seek\<close>.
\<close>

theorem readArticle_unknown_offset:
  assumes "offsetSize mu (seek meta) = None"
  shows "(\<exists>e. fst (readArticle arch meta mu) = Inl e) \<and>
         (openArticles arch = None \<and> seekArticles arch (seek meta) = Inr d \<longrightarrow>
            readArticle arch meta mu = (Inl (TriesError 0), mu) \<and>
            decodeLoop d zeroPage 0 (offsetSizeAt mu (seek meta)) meta = (Inl (TriesError 0), d)) \<and>
         (\<forall>e. openArticles arch = Some e \<longrightarrow> readArticle arch meta mu = (Inl e, mu)) \<and>
         (\<forall>e. openArticles arch = None \<and> seekArticles arch (seek meta) = Inl e \<longrightarrow>
            readArticle arch meta mu = (Inl e, mu))"
proof -
  have z: "offsetSizeAt mu (seek meta) = 0"
    using assms by (simp add: offsetSizeAt_def)
  have l: "\<And>d. decodeLoop d zeroPage 0 0 meta = (Inl (TriesError 0), d)"
    by (simp add: decodeLoop_done)
  have 1: "\<exists>e. fst (readArticle arch meta mu) = Inl e"
    using z l by (auto simp: readArticle_def split: option.splits sum.splits)
  have 2: "openArticles arch = None \<and> seekArticles arch (seek meta) = Inr d \<longrightarrow>
            readArticle arch meta mu = (Inl (TriesError 0), mu) \<and>
            decodeLoop d zeroPage 0 (offsetSizeAt mu (seek meta)) meta = (Inl (TriesError 0), d)"
    using z l by (simp add: readArticle_def)
  have 3: "\<forall>e. openArticles arch = Some e \<longrightarrow> readArticle arch meta mu = (Inl e, mu)"
    by (simp add: readArticle_def)
  have 4: "\<forall>e. openArticles arch = None \<and> seekArticles arch (seek meta) = Inl e \<longrightarrow>
            readArticle arch meta mu = (Inl e, mu)"
    by (simp add: readArticle_def)
  show ?thesis
    using 1 2 3 4 by blast
qed

text \<open>
  An entry with the offset \<open>-1\<close>, which \<open>File.Seek\<close> rejects whatever the file holds,
  and an archive that does not open: the error returned is the I/O error, not the error
  of the exhausted loop.
\<close>

theorem readArticle_unknown_offset_counterexample:
  "offsetSize mu_init (seek \<lparr>id' = 42, seek = - 1\<rparr>) = None \<and>
   fst (readArticle
          \<lparr>openArticles = None,
           seekArticles = (\<lambda>off. if off < 0 then Inl (IOError ''seek: invalid argument'')
                                  else Inr examplePages)\<rparr>
          \<lparr>id' = 42, seek = - 1\<rparr> mu_init)
     = Inl (IOError ''seek: invalid argument'') \<and>
   offsetSize mu_init (seek \<lparr>id' = 42, seek = 1024\<rparr>) = None \<and>
   fst (readArticle
          \<lparr>openArticles = Some (IOError ''open''), seekArticles = (\<lambda>off. Inr examplePages)\<rparr>
          \<lparr>id' = 42, seek = 1024\<rparr> mu_init)
     = Inl (IOError ''open'')"
  by (simp add: readArticle_def mu_init_def)

theorem readArticle_unknown_offset_witness:
  "offsetSize mu_init (seek \<lparr>id' = 42, seek = 1024\<rparr>) = None \<and>
   readArticle exampleArchive \<lparr>id' = 42, seek = 1024\<rparr> mu_init = (Inl (TriesError 0), mu_init) \<and>
   decodeLoop examplePages zeroPage 0 (offsetSizeAt mu_init 1024) \<lparr>id' = 42, seek = 1024\<rparr>
     = (Inl (TriesError 0), examplePages) \<and>
   readArticle \<lparr>openArticles = Some (IOError ''open''), seekArticles = (\<lambda>off. Inr examplePages)\<rparr>
       \<lparr>id' = 42, seek = 1024\<rparr> mu_init
     = (Inl (IOError ''open''), mu_init) \<and>
   readArticle \<lparr>openArticles = None, seekArticles = (\<lambda>off. Inl (IOError ''seek''))\<rparr>
       \<lparr>id' = 42, seek = 1024\<rparr> mu_init
     = (Inl (IOError ''seek''), mu_init)"
proof -
  let ?m = "\<lparr>id' = 42, seek = 1024\<rparr>"
  let ?noOpen = "\<lparr>openArticles = Some (IOError ''open''), seekArticles = (\<lambda>off. Inr examplePages)\<rparr>"
  let ?noSeek = "\<lparr>openArticles = None, seekArticles = (\<lambda>off. Inl (IOError ''seek''))\<rparr>"
  have a: "offsetSize mu_init (seek ?m) = None"
    by (simp add: mu_init_def)
  have op: "openArticles exampleArchive = None"
    and sk: "seekArticles exampleArchive (seek ?m) = Inr examplePages"
    by (simp_all add: exampleArchive_def)
  have 1: "readArticle exampleArchive ?m mu_init = (Inl (TriesError 0), mu_init) \<and>
     decodeLoop examplePages zeroPage 0 (offsetSizeAt mu_init 1024) ?m
       = (Inl (TriesError 0), examplePages)"
    using readArticle_unknown_offset [OF a, of exampleArchive examplePages] op sk by simp
  have 2: "readArticle ?noOpen ?m mu_init = (Inl (IOError ''open''), mu_init)"
    using readArticle_unknown_offset [OF a, of ?noOpen examplePages] by simp
  have 3: "readArticle ?noSeek ?m mu_init = (Inl (IOError ''seek''), mu_init)"
    using readArticle_unknown_offset [OF a, of ?noSeek examplePages] by simp
  show ?thesis
    using a 1 2 3 by simp
qed

end
